theory Spec2Isabelle
  imports Main "HOL-Library.Word"
begin

unbundle bit_operations_syntax

section \<open>Math::BoolVector (src/src/Math/BoolVector.h)\<close>

text \<open>
  \<^verbatim>\<open>template<std::size_t size> class BoolVector\<close> stores its bits in the array
  \<^verbatim>\<open>UnsignedByte _data[(size-1)/8+1]\<close>. The template parameter \<^verbatim>\<open>size\<close> becomes
  an explicit first argument \<open>N\<close> of every operation that uses it; the class becomes a
  record with the one member.
\<close>

type_synonym UnsignedByte = "8 word"

record BoolVector =
  data :: "UnsignedByte list"

definition DataSize :: "nat \<Rightarrow> nat" where
  "DataSize N = (N - 1) div 8 + 1"

definition FullSegmentMask :: UnsignedByte where
  "FullSegmentMask = 0xFF"

definition LastSegmentMask :: "nat \<Rightarrow> UnsignedByte" where
  "LastSegmentMask N = push_bit (N mod 8) 1 - 1"

text \<open>
  A value of type \<^verbatim>\<open>BoolVector<size>\<close>: the class has
  \<^verbatim>\<open>static_assert(size != 0)\<close> and its array has \<^verbatim>\<open>DataSize\<close> elements.
\<close>

definition is_BoolVector :: "nat \<Rightarrow> BoolVector \<Rightarrow> bool" where
  "is_BoolVector N v \<longleftrightarrow> N \<noteq> 0 \<and> length (data v) = DataSize N"

text \<open>\<^verbatim>\<open>BoolVector(): _data() {}\<close>\<close>

definition BoolVector_zero :: "nat \<Rightarrow> BoolVector" where
  "BoolVector_zero N = \<lparr>data = replicate (DataSize N) 0\<rparr>"

text \<open>
  \<^verbatim>\<open>BoolVector(UnsignedByte first, T... next): _data{first, UnsignedByte(next)...}\<close>,
  enabled only if \<^verbatim>\<open>sizeof...(T)+1 == DataSize\<close>; \<open>None\<close> stands for the overload
  that does not exist.
\<close>

definition BoolVector_segments :: "nat \<Rightarrow> UnsignedByte \<Rightarrow> UnsignedByte list \<Rightarrow> BoolVector option" where
  "BoolVector_segments N first next =
     (if length next + 1 = DataSize N then Some \<lparr>data = first # next\<rparr> else None)"

text \<open>
  \<^verbatim>\<open>Implementation::repeat(value, sequence)...\<close> over \<^verbatim>\<open>GenerateSequence<DataSize>\<close>:
  the private constructor \<^verbatim>\<open>BoolVector(Sequence<sequence...>, UnsignedByte value)\<close>.
\<close>

definition BoolVector_repeat :: "nat \<Rightarrow> UnsignedByte \<Rightarrow> BoolVector" where
  "BoolVector_repeat N v = \<lparr>data = map (\<lambda>_. v) [0..<DataSize N]\<rparr>"

text \<open>
  \<^verbatim>\<open>explicit BoolVector(T value)\<close>, enabled only if \<^verbatim>\<open>size != 1\<close>:
  \<^verbatim>\<open>BoolVector(GenerateSequence<DataSize>::Type(), value ? FullSegmentMask : 0)\<close>.
\<close>

definition BoolVector_fill :: "nat \<Rightarrow> bool \<Rightarrow> BoolVector option" where
  "BoolVector_fill N v =
     (if N \<noteq> 1 then Some (BoolVector_repeat N (if v then FullSegmentMask else 0)) else None)"

text \<open>
  \<^verbatim>\<open>operator[](std::size_t i)\<close>: \<^verbatim>\<open>return (_data[i/8] >> i%8) & 0x01;\<close>.
  The source has no bounds check; reading \<^verbatim>\<open>_data\<close> past its end is undefined and is
  \<open>None\<close> here.
\<close>

definition get :: "BoolVector \<Rightarrow> nat \<Rightarrow> bool option" where
  "get v i =
     (if i div 8 < length (data v)
      then Some ((drop_bit (i mod 8) (data v ! (i div 8))) AND 0x01 \<noteq> 0)
      else None)"

text \<open>
  \<^verbatim>\<open>set(std::size_t i, bool value)\<close>: \<^verbatim>\<open>_data[i/8] |= ((value & 0x01) << i%8);\<close>.
  Writing past the end of \<^verbatim>\<open>_data\<close> is \<open>None\<close>.
\<close>

definition set_BoolVector :: "BoolVector \<Rightarrow> nat \<Rightarrow> bool \<Rightarrow> BoolVector option" where
  "set_BoolVector v i val =
     (if i div 8 < length (data v)
      then Some (v\<lparr>data := (data v)[i div 8 :=
                  data v ! (i div 8) OR push_bit (i mod 8) ((if val then 1 else 0) AND 0x01)]\<rparr>)
      else None)"

text \<open>
  The loops \<^verbatim>\<open>for(std::size_t i = 0; i != size/8; ++i) if(...) return false;\<close> of
  \<^verbatim>\<open>operator==\<close>, \<^verbatim>\<open>all\<close> and \<^verbatim>\<open>none\<close>, over the positions still to visit.
\<close>

fun eq_segments :: "UnsignedByte list \<Rightarrow> UnsignedByte list \<Rightarrow> nat list \<Rightarrow> bool" where
  "eq_segments d e [] = True"
| "eq_segments d e (i # is) = (if d ! i \<noteq> e ! i then False else eq_segments d e is)"

definition operator_eq :: "nat \<Rightarrow> BoolVector \<Rightarrow> BoolVector \<Rightarrow> bool" where
  "operator_eq N a other =
     (if \<not> eq_segments (data a) (data other) [0..<N div 8] then False
      else if N mod 8 \<noteq> 0 \<and>
              (data a ! (DataSize N - 1)) AND LastSegmentMask N \<noteq>
              (data other ! (DataSize N - 1)) AND LastSegmentMask N then False
      else True)"

definition operator_ne :: "nat \<Rightarrow> BoolVector \<Rightarrow> BoolVector \<Rightarrow> bool" where
  "operator_ne N a other = (\<not> operator_eq N a other)"

fun all_segments :: "UnsignedByte list \<Rightarrow> nat list \<Rightarrow> bool" where
  "all_segments d [] = True"
| "all_segments d (i # is) = (if d ! i \<noteq> FullSegmentMask then False else all_segments d is)"

definition all :: "nat \<Rightarrow> BoolVector \<Rightarrow> bool" where
  "all N v =
     (if \<not> all_segments (data v) [0..<N div 8] then False
      else if N mod 8 \<noteq> 0 \<and>
              (data v ! (DataSize N - 1)) AND LastSegmentMask N \<noteq> LastSegmentMask N then False
      else True)"

fun none_segments :: "UnsignedByte list \<Rightarrow> nat list \<Rightarrow> bool" where
  "none_segments d [] = True"
| "none_segments d (i # is) = (if d ! i \<noteq> 0 then False else none_segments d is)"

definition none :: "nat \<Rightarrow> BoolVector \<Rightarrow> bool" where
  "none N v =
     (if \<not> none_segments (data v) [0..<N div 8] then False
      else if N mod 8 \<noteq> 0 \<and> (data v ! (DataSize N - 1)) AND LastSegmentMask N \<noteq> 0 then False
      else True)"

definition any :: "nat \<Rightarrow> BoolVector \<Rightarrow> bool" where
  "any N v = (\<not> none N v)"

text \<open>
  \<^verbatim>\<open>operator~\<close>: \<^verbatim>\<open>BoolVector<size> out; for(i = 0; i != DataSize; ++i) out._data[i] = ~_data[i];\<close>
\<close>

definition operator_not :: "nat \<Rightarrow> BoolVector \<Rightarrow> BoolVector" where
  "operator_not N v =
     fold (\<lambda>i out. out\<lparr>data := (data out)[i := NOT (data v ! i)]\<rparr>)
          [0..<DataSize N] (BoolVector_zero N)"

text \<open>
  \<^verbatim>\<open>operator&=\<close>, \<^verbatim>\<open>operator|=\<close>, \<^verbatim>\<open>operator^=\<close>:
  \<^verbatim>\<open>for(i = 0; i != DataSize; ++i) _data[i] &= other._data[i];\<close> and the binary forms
  \<^verbatim>\<open>return BoolVector<size>(*this) &= other;\<close> on a copy.
\<close>

definition operator_and_assign :: "nat \<Rightarrow> BoolVector \<Rightarrow> BoolVector \<Rightarrow> BoolVector" where
  "operator_and_assign N this other =
     fold (\<lambda>i t. t\<lparr>data := (data t)[i := data t ! i AND data other ! i]\<rparr>) [0..<DataSize N] this"

definition operator_and :: "nat \<Rightarrow> BoolVector \<Rightarrow> BoolVector \<Rightarrow> BoolVector" where
  "operator_and N this other = operator_and_assign N this other"

definition operator_or_assign :: "nat \<Rightarrow> BoolVector \<Rightarrow> BoolVector \<Rightarrow> BoolVector" where
  "operator_or_assign N this other =
     fold (\<lambda>i t. t\<lparr>data := (data t)[i := data t ! i OR data other ! i]\<rparr>) [0..<DataSize N] this"

definition operator_or :: "nat \<Rightarrow> BoolVector \<Rightarrow> BoolVector \<Rightarrow> BoolVector" where
  "operator_or N this other = operator_or_assign N this other"

definition operator_xor_assign :: "nat \<Rightarrow> BoolVector \<Rightarrow> BoolVector \<Rightarrow> BoolVector" where
  "operator_xor_assign N this other =
     fold (\<lambda>i t. t\<lparr>data := (data t)[i := data t ! i XOR data other ! i]\<rparr>) [0..<DataSize N] this"

definition operator_xor :: "nat \<Rightarrow> BoolVector \<Rightarrow> BoolVector \<Rightarrow> BoolVector" where
  "operator_xor N this other = operator_xor_assign N this other"

section \<open>MeshTools::compressIndices (src/src/MeshTools/CompressIndices.cpp)\<close>

text \<open>
  \<^verbatim>\<open>Mesh::IndexType\<close>, as returned by the three specialisations of \<^verbatim>\<open>indexType<T>()\<close>
  for \<^verbatim>\<open>GLubyte\<close>, \<^verbatim>\<open>GLushort\<close> and \<^verbatim>\<open>GLuint\<close>. The template parameter \<^verbatim>\<open>T\<close> of
  \<^verbatim>\<open>compress<T>\<close> is identified with its tag.
\<close>

datatype IndexType = UnsignedByte | UnsignedShort | UnsignedInt

text \<open>\<^verbatim>\<open>sizeof(T)\<close> for the 8-, 16- and 32-bit unsigned types \<^verbatim>\<open>GLubyte\<close>, \<^verbatim>\<open>GLushort\<close>, \<^verbatim>\<open>GLuint\<close>.\<close>

definition sizeof :: "IndexType \<Rightarrow> nat" where
  "sizeof T = (case T of UnsignedByte \<Rightarrow> 1 | UnsignedShort \<Rightarrow> 2 | UnsignedInt \<Rightarrow> 4)"

text \<open>\<^verbatim>\<open>static_cast<T>(indices[i])\<close>: an unsigned narrowing keeps the low \<^verbatim>\<open>8*sizeof(T)\<close> bits.\<close>

definition static_cast :: "IndexType \<Rightarrow> 32 word \<Rightarrow> 32 word" where
  "static_cast T x = take_bit (8 * sizeof T) x"

text \<open>
  The bytes of a \<^verbatim>\<open>T\<close> object as \<^verbatim>\<open>std::memcpy\<close> reads them. The source copies in the
  byte order of the machine, which is a parameter here.
\<close>

datatype ByteOrder = LittleEndian | BigEndian

definition bytes_of :: "ByteOrder \<Rightarrow> IndexType \<Rightarrow> 32 word \<Rightarrow> 8 word list" where
  "bytes_of bo T index =
     (let low_first = map (\<lambda>k. ucast (drop_bit (8 * k) index)) [0..<sizeof T]
      in case bo of LittleEndian \<Rightarrow> low_first | BigEndian \<Rightarrow> rev low_first)"

text \<open>\<^verbatim>\<open>std::memcpy(buffer + offset, &index, sizeof(T))\<close> on the buffer as a list of bytes.\<close>

definition memcpy :: "8 word list \<Rightarrow> nat \<Rightarrow> 8 word list \<Rightarrow> 8 word list" where
  "memcpy buffer offset src = take offset buffer @ src @ drop (offset + length src) buffer"

text \<open>
  \<^verbatim>\<open>compress<T>\<close>: \<^verbatim>\<open>new char[indices.size()*sizeof(T)]\<close> (its indeterminate contents are
  zeros here), the loop \<^verbatim>\<open>for(i = 0; i != indices.size(); ++i)\<close> and the returned tuple.
\<close>

definition compress :: "ByteOrder \<Rightarrow> IndexType \<Rightarrow> 32 word list \<Rightarrow> nat \<times> IndexType \<times> 8 word list" where
  "compress bo T indices =
     (let buffer = replicate (length indices * sizeof T) 0;
          buffer = fold (\<lambda>i buffer.
                     let index = static_cast T (indices ! i)
                     in memcpy buffer (i * sizeof T) (bytes_of bo T index))
                   [0..<length indices] buffer
      in (length indices, T, buffer))"

text \<open>
  \<^verbatim>\<open>std::max_element(first, last)\<close> of the standard library, on positions: the position of
  the first greatest element, and \<^verbatim>\<open>last\<close> (the length) for an empty range.
\<close>

definition max_element :: "32 word list \<Rightarrow> nat" where
  "max_element xs =
     (if xs = [] then length xs
      else fold (\<lambda>i largest. if xs ! largest < xs ! i then i else largest) [1..<length xs] 0)"

text \<open>
  \<^verbatim>\<open>*it\<close>: the source reads through the iterator with no check. Inside the sequence the
  read gives the element. At the past-the-end position, which \<^verbatim>\<open>std::max_element\<close> returns
  only for an empty sequence, C++ leaves the read undefined: nothing stops it, and the word
  it finds there is the parameter \<open>stale\<close>.
\<close>

definition deref :: "32 word \<Rightarrow> 32 word list \<Rightarrow> nat \<Rightarrow> 32 word" where
  "deref stale xs it = (if it < length xs then xs ! it else stale)"

text \<open>The failure of \<^verbatim>\<open>CORRADE_ASSERT\<close> in the default branch, with the value it prints.\<close>

datatype error = NoTypeAbleToIndex nat

text \<open>
  Modelled from the spec: \<^verbatim>\<open>Math::log\<close> of \<^verbatim>\<open>Math/Functions.h\<close>, which is not among
  the sources. The specification calls it an integer log in the given base, the number of
  full multiples of the base needed to represent the number, \<open>floor(log_256(max))\<close> for
  base 256: the number of times the number can be divided by the base before it becomes
  zero, not counting the last. A base below 2 has no logarithm and gives 0.
\<close>

function Math_log :: "nat \<Rightarrow> nat \<Rightarrow> nat" where
  "Math_log base number =
     (if base < 2 \<or> number div base = 0 then 0 else Suc (Math_log base (number div base)))"
  by pat_completeness auto
termination
proof (relation "measure (\<lambda>(base, number). number)")
  fix base number :: nat
  assume h: "\<not> (base < 2 \<or> number div base = 0)"
  then have "1 < base" by simp
  moreover from h have "0 < number" by (cases "number = 0") simp_all
  ultimately have "number div base < number" by (rule div_less_dividend)
  then show "((base, number div base), (base, number)) \<in> measure (\<lambda>(base, number). number)"
    by simp
qed simp

text \<open>
  \<^verbatim>\<open>compressIndices(const std::vector<std::uint32_t>& indices)\<close>. The default branch is
  \<^verbatim>\<open>CORRADE_ASSERT(false, "... no type able to index" << size << "elements.", {})\<close>.
\<close>

definition compressIndices ::
    "ByteOrder \<Rightarrow> 32 word \<Rightarrow> 32 word list \<Rightarrow> error + (nat \<times> IndexType \<times> 8 word list)" where
  "compressIndices bo stale indices =
     (let size = unat (deref stale indices (max_element indices));
          k = Math_log 256 size
      in if k = 0 then Inr (compress bo UnsignedByte indices)
         else if k = 1 then Inr (compress bo UnsignedShort indices)
         else if k = 2 \<or> k = 3 then Inr (compress bo UnsignedInt indices)
         else Inl (NoTypeAbleToIndex size))"

text \<open>
  Reading element \<open>i\<close> of a buffer of elements of type \<open>T\<close> back, in the same byte order:
  what a consumer of the index buffer does with the reported type.
\<close>

definition decode_index :: "ByteOrder \<Rightarrow> IndexType \<Rightarrow> 8 word list \<Rightarrow> nat \<Rightarrow> 32 word" where
  "decode_index bo T buffer i =
     (let bytes = take (sizeof T) (drop (i * sizeof T) buffer);
          low_first = (case bo of LittleEndian \<Rightarrow> bytes | BigEndian \<Rightarrow> rev bytes)
      in foldr (\<lambda>b acc. ucast b OR push_bit 8 acc) low_first 0)"

section \<open>Facts about the storage layout\<close>

lemma DataSize_Suc: "DataSize (Suc n) = n div 8 + 1"
  by (simp add: DataSize_def)

lemma DataSize_full: "N \<noteq> 0 \<Longrightarrow> N mod 8 = 0 \<Longrightarrow> DataSize N = N div 8"
  by (cases N) (simp_all add: DataSize_Suc div_Suc del: One_nat_def)

lemma DataSize_partial: "N mod 8 \<noteq> 0 \<Longrightarrow> DataSize N = N div 8 + 1"
  by (cases N) (simp_all add: DataSize_Suc div_Suc)

lemma index_in_DataSize:
  assumes "i < N"
  shows "i div 8 < DataSize N"
proof (cases N)
  case 0
  with assms show ?thesis by simp
next
  case (Suc n)
  with assms have "i \<le> n" by simp
  then have "i div 8 \<le> n div 8" by (rule div_le_mono)
  with Suc show ?thesis by (simp add: DataSize_Suc)
qed

lemma LastSegmentMask_mask: "LastSegmentMask N = mask (N mod 8)"
  by (simp add: LastSegmentMask_def mask_eq_exp_minus_1)

text \<open>Every bit index below \<open>N\<close> lies in a full segment or in the partial last one.\<close>

lemma bit_index_split:
  "(\<forall>i<N::nat. P (i div 8) (i mod 8)) \<longleftrightarrow>
   (\<forall>k<N div 8. \<forall>j<8. P k j) \<and> (\<forall>j<N mod 8. P (N div 8) j)"
proof (intro iffI conjI allI impI)
  fix k j :: nat
  assume h: "\<forall>i<N. P (i div 8) (i mod 8)" and k: "k < N div 8" and j: "j < 8"
  from k have "Suc k \<le> N div 8" by simp
  then have "8 * Suc k \<le> 8 * (N div 8)" by simp
  also have "\<dots> \<le> N" by simp
  finally have "8 * k + j < N" using j by simp
  with h have "P ((8 * k + j) div 8) ((8 * k + j) mod 8)" by blast
  with j show "P k j" by simp
next
  fix j :: nat
  assume h: "\<forall>i<N. P (i div 8) (i mod 8)" and j: "j < N mod 8"
  have j8: "j < 8" using j by (rule less_trans) simp
  have "8 * (N div 8) + j < 8 * (N div 8) + N mod 8"
    using j by (simp only: nat_add_left_cancel_less)
  also have "\<dots> = N" by (rule mult_div_mod_eq)
  finally have "8 * (N div 8) + j < N" .
  with h have "P ((8 * (N div 8) + j) div 8) ((8 * (N div 8) + j) mod 8)" by blast
  with j8 show "P (N div 8) j" by simp
next
  fix i :: nat
  assume h: "(\<forall>k<N div 8. \<forall>j<8. P k j) \<and> (\<forall>j<N mod 8. P (N div 8) j)" and i: "i < N"
  show "P (i div 8) (i mod 8)"
  proof (cases "i div 8 < N div 8")
    case True
    with h show ?thesis by simp
  next
    case False
    have "i div 8 \<le> N div 8" using i by (simp add: div_le_mono)
    with False have e: "i div 8 = N div 8" by simp
    have "8 * (i div 8) + i mod 8 < 8 * (N div 8) + N mod 8"
      using i by (simp only: mult_div_mod_eq)
    with e have "i mod 8 < N mod 8" by (simp only: nat_add_left_cancel_less)
    with h e show ?thesis by simp
  qed
qed

section \<open>Reading a bit\<close>

lemma test_bit_iff: "(drop_bit n (w :: UnsignedByte) AND 0x01 \<noteq> 0) \<longleftrightarrow> bit w n"
  by (simp add: bit_iff_odd_drop_bit and_one_eq odd_iff_mod_2_eq_one)

lemma get_bit:
  "i div 8 < length (data v) \<Longrightarrow> get v i = Some (bit (data v ! (i div 8)) (i mod 8))"
  by (simp add: get_def test_bit_iff)

lemma get_valid:
  "is_BoolVector N v \<Longrightarrow> i < N \<Longrightarrow> get v i = Some (bit (data v ! (i div 8)) (i mod 8))"
  by (rule get_bit) (simp add: is_BoolVector_def index_in_DataSize)

lemma byte_eq_iff: "(w :: UnsignedByte) = w' \<longleftrightarrow> (\<forall>j<8. bit w j = bit w' j)"
proof
  assume "w = w'"
  then show "\<forall>j<8. bit w j = bit w' j" by simp
next
  assume h: "\<forall>j<8. bit w j = bit w' j"
  show "w = w'" by (rule bit_word_eqI) (use h in simp)
qed

lemma masked_eq_iff:
  assumes n8: "n < 8"
  shows "(w :: UnsignedByte) AND mask n = w' AND mask n \<longleftrightarrow> (\<forall>j<n. bit w j = bit w' j)"
proof
  assume h: "w AND mask n = w' AND mask n"
  show "\<forall>j<n. bit w j = bit w' j"
  proof (intro allI impI)
    fix j assume "j < n"
    from h have "bit (w AND mask n) j = bit (w' AND mask n) j" by simp
    with \<open>j < n\<close> n8 show "bit w j = bit w' j" by (simp add: bit_and_iff bit_mask_iff)
  qed
next
  assume h: "\<forall>j<n. bit w j = bit w' j"
  show "w AND mask n = w' AND mask n"
  proof (rule bit_word_eqI)
    fix j assume "j < LENGTH(8)"
    show "bit (w AND mask n) j = bit (w' AND mask n) j"
      using h by (cases "j < n") (simp_all add: bit_and_iff bit_mask_iff)
  qed
qed

lemma byte_full_iff: "(w :: UnsignedByte) = 0xFF \<longleftrightarrow> (\<forall>j<8. bit w j)"
proof -
  have m: "(0xFF :: UnsignedByte) = mask 8" by (simp add: mask_eq_exp_minus_1)
  show ?thesis unfolding m byte_eq_iff by (simp add: bit_mask_iff)
qed

lemma byte_zero_iff: "(w :: UnsignedByte) = 0 \<longleftrightarrow> (\<forall>j<8. \<not> bit w j)"
  unfolding byte_eq_iff by simp

lemma masked_full_iff:
  assumes n8: "n < 8"
  shows "(w :: UnsignedByte) AND mask n = mask n \<longleftrightarrow> (\<forall>j<n. bit w j)"
proof -
  have "(w AND mask n = mask n) = (w AND mask n = (- 1) AND mask n)" by simp
  also have "\<dots> = (\<forall>j<n. bit w j = bit (- 1 :: UnsignedByte) j)"
    using n8 by (rule masked_eq_iff)
  also have "\<dots> = (\<forall>j<n. bit w j)" using n8 by auto
  finally show ?thesis .
qed

lemma masked_zero_iff:
  assumes n8: "n < 8"
  shows "(w :: UnsignedByte) AND mask n = 0 \<longleftrightarrow> (\<forall>j<n. \<not> bit w j)"
proof -
  have "(w AND mask n = 0) = (w AND mask n = 0 AND mask n)" by simp
  also have "\<dots> = (\<forall>j<n. bit w j = bit (0 :: UnsignedByte) j)"
    using n8 by (rule masked_eq_iff)
  also have "\<dots> = (\<forall>j<n. \<not> bit w j)" by simp
  finally show ?thesis .
qed

section \<open>The comparison loops\<close>

lemma eq_segments_set: "eq_segments d e is \<longleftrightarrow> (\<forall>k \<in> set is. d ! k = e ! k)"
  by (induction "is") auto

lemma eq_segments_iff: "eq_segments d e [0..<n] \<longleftrightarrow> (\<forall>k<n. d ! k = e ! k)"
  by (auto simp: eq_segments_set)

lemma all_segments_set: "all_segments d is \<longleftrightarrow> (\<forall>k \<in> set is. d ! k = 0xFF)"
  by (induction "is") (auto simp: FullSegmentMask_def)

lemma all_segments_iff: "all_segments d [0..<n] \<longleftrightarrow> (\<forall>k<n. d ! k = 0xFF)"
  by (auto simp: all_segments_set)

lemma none_segments_set: "none_segments d is \<longleftrightarrow> (\<forall>k \<in> set is. d ! k = 0)"
  by (induction "is") auto

lemma none_segments_iff: "none_segments d [0..<n] \<longleftrightarrow> (\<forall>k<n. d ! k = 0)"
  by (auto simp: none_segments_set)

lemma last_index: "0 < N mod 8 \<Longrightarrow> DataSize N - Suc 0 = N div 8"
  by (simp add: DataSize_partial)

lemma operator_eq_segments:
  "operator_eq N a b \<longleftrightarrow>
     (\<forall>k<N div 8. \<forall>j<8. bit (data a ! k) j = bit (data b ! k) j) \<and>
     (\<forall>j<N mod 8. bit (data a ! (N div 8)) j = bit (data b ! (N div 8)) j)"
proof (cases "N mod 8 = 0")
  case True
  then show ?thesis
    by (simp add: operator_eq_def eq_segments_iff flip: byte_eq_iff)
next
  case False
  have "N mod 8 < 8" by simp
  then show ?thesis using False
    by (simp add: operator_eq_def eq_segments_iff last_index LastSegmentMask_mask
        masked_eq_iff flip: byte_eq_iff)
qed

lemma all_bits_segments:
  "all N v \<longleftrightarrow>
     (\<forall>k<N div 8. \<forall>j<8. bit (data v ! k) j) \<and> (\<forall>j<N mod 8. bit (data v ! (N div 8)) j)"
proof (cases "N mod 8 = 0")
  case True
  then show ?thesis
    by (simp add: all_def all_segments_iff flip: byte_full_iff)
next
  case False
  have "N mod 8 < 8" by simp
  then show ?thesis using False
    by (simp add: all_def all_segments_iff last_index LastSegmentMask_mask
        masked_full_iff flip: byte_full_iff)
qed

lemma none_bits_segments:
  "none N v \<longleftrightarrow>
     (\<forall>k<N div 8. \<forall>j<8. \<not> bit (data v ! k) j) \<and> (\<forall>j<N mod 8. \<not> bit (data v ! (N div 8)) j)"
proof (cases "N mod 8 = 0")
  case True
  then show ?thesis
    by (simp add: none_def none_segments_iff flip: byte_zero_iff)
next
  case False
  have "N mod 8 < 8" by simp
  then show ?thesis using False
    by (simp add: none_def none_segments_iff last_index LastSegmentMask_mask
        masked_zero_iff flip: byte_zero_iff)
qed

text \<open>The three results in terms of the stored bits below \<open>N\<close>.\<close>

lemma operator_eq_bits:
  "operator_eq N a b \<longleftrightarrow>
     (\<forall>i<N. bit (data a ! (i div 8)) (i mod 8) = bit (data b ! (i div 8)) (i mod 8))"
  unfolding operator_eq_segments
  by (rule bit_index_split [where P = "\<lambda>k j. bit (data a ! k) j = bit (data b ! k) j", symmetric])

lemma all_bits: "all N v \<longleftrightarrow> (\<forall>i<N. bit (data v ! (i div 8)) (i mod 8))"
  unfolding all_bits_segments
  by (rule bit_index_split [where P = "\<lambda>k j. bit (data v ! k) j", symmetric])

lemma none_bits: "none N v \<longleftrightarrow> (\<forall>i<N. \<not> bit (data v ! (i div 8)) (i mod 8))"
  unfolding none_bits_segments
  by (rule bit_index_split [where P = "\<lambda>k j. \<not> bit (data v ! k) j", symmetric])

section \<open>The segment-wise loops\<close>

lemma segment_loop_length:
  "length (data (fold (\<lambda>i t. t\<lparr>data := (data t)[i := f i (data t ! i)]\<rparr>) is t)) = length (data t)"
  by (induction "is" arbitrary: t) simp_all

lemma segment_loop_nth:
  "k < length (data t) \<Longrightarrow>
   data (fold (\<lambda>i t. t\<lparr>data := (data t)[i := f i (data t ! i)]\<rparr>) [0..<n] t) ! k =
     (if k < n then f k (data t ! k) else data t ! k)"
proof (induction n arbitrary: k)
  case 0
  then show ?case by simp
next
  case (Suc n)
  show ?case
  proof (cases "k = n")
    case True
    with Suc.prems Suc.IH [of n] show ?thesis
      by (simp add: segment_loop_length)
  next
    case False
    with Suc.prems Suc.IH [of k] show ?thesis
      by (simp add: segment_loop_length less_Suc_eq)
  qed
qed

lemma operator_not_length: "length (data (operator_not N v)) = DataSize N"
  unfolding operator_not_def
  using segment_loop_length [where f = "\<lambda>i x. NOT (data v ! i)" and t = "BoolVector_zero N"]
  by (simp add: BoolVector_zero_def)

lemma operator_not_nth:
  "k < DataSize N \<Longrightarrow> data (operator_not N v) ! k = NOT (data v ! k)"
  unfolding operator_not_def
  using segment_loop_nth [where f = "\<lambda>i x. NOT (data v ! i)" and t = "BoolVector_zero N" and n = "DataSize N" and k = k]
  by (simp add: BoolVector_zero_def)

lemma operator_and_length: "length (data (operator_and N a b)) = length (data a)"
  unfolding operator_and_def operator_and_assign_def
  by (rule segment_loop_length [where f = "\<lambda>i x. x AND data b ! i"])

lemma operator_or_length: "length (data (operator_or N a b)) = length (data a)"
  unfolding operator_or_def operator_or_assign_def
  by (rule segment_loop_length [where f = "\<lambda>i x. x OR data b ! i"])

lemma operator_xor_length: "length (data (operator_xor N a b)) = length (data a)"
  unfolding operator_xor_def operator_xor_assign_def
  by (rule segment_loop_length [where f = "\<lambda>i x. x XOR data b ! i"])

lemma operator_and_nth:
  "is_BoolVector N a \<Longrightarrow> k < DataSize N \<Longrightarrow>
   data (operator_and N a b) ! k = data a ! k AND data b ! k"
  unfolding operator_and_def operator_and_assign_def
  using segment_loop_nth [where f = "\<lambda>i x. x AND data b ! i" and t = a and n = "DataSize N" and k = k]
  by (simp add: is_BoolVector_def)

lemma operator_or_nth:
  "is_BoolVector N a \<Longrightarrow> k < DataSize N \<Longrightarrow>
   data (operator_or N a b) ! k = data a ! k OR data b ! k"
  unfolding operator_or_def operator_or_assign_def
  using segment_loop_nth [where f = "\<lambda>i x. x OR data b ! i" and t = a and n = "DataSize N" and k = k]
  by (simp add: is_BoolVector_def)

lemma operator_xor_nth:
  "is_BoolVector N a \<Longrightarrow> k < DataSize N \<Longrightarrow>
   data (operator_xor N a b) ! k = data a ! k XOR data b ! k"
  unfolding operator_xor_def operator_xor_assign_def
  using segment_loop_nth [where f = "\<lambda>i x. x XOR data b ! i" and t = a and n = "DataSize N" and k = k]
  by (simp add: is_BoolVector_def)

lemma is_BoolVector_not: "N \<noteq> 0 \<Longrightarrow> is_BoolVector N (operator_not N v)"
  by (simp add: is_BoolVector_def operator_not_length)

lemma is_BoolVector_and: "is_BoolVector N a \<Longrightarrow> is_BoolVector N (operator_and N a b)"
  by (simp add: is_BoolVector_def operator_and_length)

lemma is_BoolVector_or: "is_BoolVector N a \<Longrightarrow> is_BoolVector N (operator_or N a b)"
  by (simp add: is_BoolVector_def operator_or_length)

lemma is_BoolVector_xor: "is_BoolVector N a \<Longrightarrow> is_BoolVector N (operator_xor N a b)"
  by (simp add: is_BoolVector_def operator_xor_length)

text \<open>The stored bit \<open>i\<close> of a vector.\<close>

lemma mod8_less: "i mod 8 < LENGTH(8)"
  by simp

lemma not_bit:
  "i < N \<Longrightarrow> bit (data (operator_not N v) ! (i div 8)) (i mod 8) \<longleftrightarrow>
     \<not> bit (data v ! (i div 8)) (i mod 8)"
  by (simp add: operator_not_nth index_in_DataSize bit_not_iff)

lemma and_bit:
  "is_BoolVector N a \<Longrightarrow> i < N \<Longrightarrow>
   bit (data (operator_and N a b) ! (i div 8)) (i mod 8) \<longleftrightarrow>
     bit (data a ! (i div 8)) (i mod 8) \<and> bit (data b ! (i div 8)) (i mod 8)"
  by (simp add: operator_and_nth index_in_DataSize bit_and_iff)

lemma or_bit:
  "is_BoolVector N a \<Longrightarrow> i < N \<Longrightarrow>
   bit (data (operator_or N a b) ! (i div 8)) (i mod 8) \<longleftrightarrow>
     bit (data a ! (i div 8)) (i mod 8) \<or> bit (data b ! (i div 8)) (i mod 8)"
  by (simp add: operator_or_nth index_in_DataSize bit_or_iff)

lemma xor_bit:
  "is_BoolVector N a \<Longrightarrow> i < N \<Longrightarrow>
   bit (data (operator_xor N a b) ! (i div 8)) (i mod 8) \<longleftrightarrow>
     bit (data a ! (i div 8)) (i mod 8) \<noteq> bit (data b ! (i div 8)) (i mod 8)"
  by (simp add: operator_xor_nth index_in_DataSize bit_xor_iff)

section \<open>Claims about BoolVector\<close>

text \<open>
  C4. For every bit count \<open>N\<close> and every two vectors of that size, \<^verbatim>\<open>a == b\<close> holds
  if and only if \<^verbatim>\<open>a[i] == b[i]\<close> for every \<open>i < N\<close>; in particular two vectors built from
  segment bytes that agree on the bits below \<open>N\<close> compare equal, whatever their tail bits.
\<close>

theorem operator_eq_iff_meaningful_bits:
  assumes "is_BoolVector N a" and "is_BoolVector N b"
  shows "(operator_eq N a b \<longleftrightarrow> (\<forall>i<N. get a i = get b i)) \<and>
         (\<forall>f1 n1 f2 n2.
            BoolVector_segments N f1 n1 = Some a \<and> BoolVector_segments N f2 n2 = Some b \<and>
            (\<forall>i<N. get a i = get b i) \<longrightarrow> operator_eq N a b)"
proof -
  have "operator_eq N a b \<longleftrightarrow> (\<forall>i<N. get a i = get b i)"
    using assms by (simp add: operator_eq_bits get_valid)
  then show ?thesis by blast
qed

theorem operator_eq_iff_meaningful_bits_witness:
  "is_BoolVector 4 \<lparr>data = [0x0F]\<rparr> \<and> is_BoolVector 4 \<lparr>data = [0xFF]\<rparr> \<and>
   BoolVector_segments 4 0x0F [] = Some \<lparr>data = [0x0F]\<rparr> \<and>
   BoolVector_segments 4 0xFF [] = Some \<lparr>data = [0xFF]\<rparr> \<and>
   get \<lparr>data = [0x0F]\<rparr> 0 = get \<lparr>data = [0xFF]\<rparr> 0 \<and>
   get \<lparr>data = [0x0F]\<rparr> 3 = get \<lparr>data = [0xFF]\<rparr> 3 \<and>
   get \<lparr>data = [0x0F]\<rparr> 4 \<noteq> get \<lparr>data = [0xFF]\<rparr> 4 \<and>
   operator_eq 4 \<lparr>data = [0x0F]\<rparr> \<lparr>data = [0xFF]\<rparr>"
proof -
  have a: "is_BoolVector 4 \<lparr>data = [0x0F]\<rparr>" and b: "is_BoolVector 4 \<lparr>data = [0xFF]\<rparr>"
    by (simp_all add: is_BoolVector_def DataSize_def)
  have s: "BoolVector_segments 4 0x0F [] = Some \<lparr>data = [0x0F]\<rparr>"
          "BoolVector_segments 4 0xFF [] = Some \<lparr>data = [0xFF]\<rparr>"
    by (simp_all add: BoolVector_segments_def DataSize_def)
  have e: "operator_eq 4 \<lparr>data = [0x0F]\<rparr> \<lparr>data = [0xFF]\<rparr>"
    by (simp add: operator_eq_def DataSize_def LastSegmentMask_def)
  from operator_eq_iff_meaningful_bits [OF a b] e
  have "\<forall>i<4. get \<lparr>data = [0x0F]\<rparr> i = get \<lparr>data = [0xFF]\<rparr> i" by blast
  then have g: "get \<lparr>data = [0x0F]\<rparr> 0 = get \<lparr>data = [0xFF]\<rparr> 0"
               "get \<lparr>data = [0x0F]\<rparr> 3 = get \<lparr>data = [0xFF]\<rparr> 3"
    by simp_all
  have t: "get \<lparr>data = [0x0F]\<rparr> 4 \<noteq> get \<lparr>data = [0xFF]\<rparr> 4"
    by (simp add: get_def)
  from a b s e g t show ?thesis by blast
qed

text \<open>
  C5. For every bit count \<open>N\<close> and every vector \<open>v\<close> of that size: \<^verbatim>\<open>v.all()\<close> is true if
  and only if \<^verbatim>\<open>v[i]\<close> is true for every \<open>i < N\<close>; \<^verbatim>\<open>v.none()\<close> is true if and only if
  \<^verbatim>\<open>v[i]\<close> is false for every \<open>i < N\<close>; \<^verbatim>\<open>v.any()\<close> equals \<^verbatim>\<open>!v.none()\<close>. The bits from
  \<open>N\<close> on do not occur in the three results.
\<close>

theorem all_none_any_meaningful_bits:
  assumes "is_BoolVector N v"
  shows "(all N v \<longleftrightarrow> (\<forall>i<N. get v i = Some True)) \<and>
         (none N v \<longleftrightarrow> (\<forall>i<N. get v i = Some False)) \<and>
         (any N v \<longleftrightarrow> \<not> none N v)"
  using assms by (simp add: all_bits none_bits any_def get_valid)

theorem all_none_any_meaningful_bits_witness:
  "is_BoolVector 3 \<lparr>data = [0xF8]\<rparr> \<and> none 3 \<lparr>data = [0xF8]\<rparr> \<and>
   \<not> all 3 \<lparr>data = [0xF8]\<rparr> \<and> \<not> any 3 \<lparr>data = [0xF8]\<rparr> \<and>
   get \<lparr>data = [0xF8]\<rparr> 0 = Some False \<and> get \<lparr>data = [0xF8]\<rparr> 2 = Some False \<and>
   get \<lparr>data = [0xF8]\<rparr> 3 = Some True"
proof -
  have v: "is_BoolVector 3 \<lparr>data = [0xF8]\<rparr>"
    by (simp add: is_BoolVector_def DataSize_def)
  have n: "none 3 \<lparr>data = [0xF8]\<rparr>"
    by (simp add: none_def DataSize_def LastSegmentMask_def)
  have a: "\<not> all 3 \<lparr>data = [0xF8]\<rparr>"
    by (simp add: all_def DataSize_def LastSegmentMask_def)
  from all_none_any_meaningful_bits [OF v] n
  have y: "\<not> any 3 \<lparr>data = [0xF8]\<rparr>" and "\<forall>i<3. get \<lparr>data = [0xF8]\<rparr> i = Some False"
    by blast+
  then have g: "get \<lparr>data = [0xF8]\<rparr> 0 = Some False" "get \<lparr>data = [0xF8]\<rparr> 2 = Some False"
    by simp_all
  have t: "get \<lparr>data = [0xF8]\<rparr> 3 = Some True"
    by (simp add: get_def)
  from v n a y g t show ?thesis by blast
qed

text \<open>
  C6. For every bit count \<open>N\<close> and every vector \<open>a\<close> of that size: \<^verbatim>\<open>a == a\<close>, and
  \<^verbatim>\<open>~~a == a\<close> under the same masked equality.
\<close>

theorem operator_eq_refl_and_double_not:
  assumes "is_BoolVector N a"
  shows "operator_eq N a a \<and> operator_eq N (operator_not N (operator_not N a)) a"
proof
  show "operator_eq N a a" by (simp add: operator_eq_bits)
  show "operator_eq N (operator_not N (operator_not N a)) a"
    by (simp add: operator_eq_bits not_bit)
qed

theorem operator_eq_refl_and_double_not_witness:
  "is_BoolVector 12 \<lparr>data = [0xA5, 0x3C]\<rparr> \<and>
   operator_eq 12 \<lparr>data = [0xA5, 0x3C]\<rparr> \<lparr>data = [0xA5, 0x3C]\<rparr> \<and>
   operator_not 12 \<lparr>data = [0xA5, 0x3C]\<rparr> = \<lparr>data = [0x5A, 0xC3]\<rparr> \<and>
   operator_eq 12 (operator_not 12 (operator_not 12 \<lparr>data = [0xA5, 0x3C]\<rparr>))
     \<lparr>data = [0xA5, 0x3C]\<rparr>"
proof -
  have v: "is_BoolVector 12 \<lparr>data = [0xA5, 0x3C]\<rparr>"
    by (simp add: is_BoolVector_def DataSize_def)
  have n: "operator_not 12 \<lparr>data = [0xA5, 0x3C]\<rparr> = \<lparr>data = [0x5A, 0xC3]\<rparr>"
    by (simp add: operator_not_def BoolVector_zero_def DataSize_def upt_rec)
  from operator_eq_refl_and_double_not [OF v] v n show ?thesis by blast
qed

text \<open>
  C7. For every bit count \<open>N\<close> and all vectors \<open>a\<close>, \<open>b\<close>, \<open>c\<close> of that size: \<^verbatim>\<open>&\<close>, \<^verbatim>\<open>|\<close>
  and \<^verbatim>\<open>^\<close> are commutative and associative with respect to \<^verbatim>\<open>operator==\<close>, and
  \<^verbatim>\<open>(a ^ a).none()\<close> is true.
\<close>

theorem bitwise_operators_commute_and_associate:
  assumes a: "is_BoolVector N a" and b: "is_BoolVector N b" and c: "is_BoolVector N c"
  shows "operator_eq N (operator_and N a b) (operator_and N b a) \<and>
         operator_eq N (operator_or N a b) (operator_or N b a) \<and>
         operator_eq N (operator_xor N a b) (operator_xor N b a) \<and>
         operator_eq N (operator_and N (operator_and N a b) c) (operator_and N a (operator_and N b c)) \<and>
         operator_eq N (operator_or N (operator_or N a b) c) (operator_or N a (operator_or N b c)) \<and>
         operator_eq N (operator_xor N (operator_xor N a b) c) (operator_xor N a (operator_xor N b c)) \<and>
         none N (operator_xor N a a)"
proof (intro conjI)
  show "operator_eq N (operator_and N a b) (operator_and N b a)"
    using a b by (auto simp: operator_eq_bits and_bit)
  show "operator_eq N (operator_or N a b) (operator_or N b a)"
    using a b by (auto simp: operator_eq_bits or_bit)
  show "operator_eq N (operator_xor N a b) (operator_xor N b a)"
    using a b by (auto simp: operator_eq_bits xor_bit)
  show "operator_eq N (operator_and N (operator_and N a b) c) (operator_and N a (operator_and N b c))"
    using a b c by (auto simp: operator_eq_bits and_bit is_BoolVector_and)
  show "operator_eq N (operator_or N (operator_or N a b) c) (operator_or N a (operator_or N b c))"
    using a b c by (auto simp: operator_eq_bits or_bit is_BoolVector_or)
  show "operator_eq N (operator_xor N (operator_xor N a b) c) (operator_xor N a (operator_xor N b c))"
    using a b c by (auto simp: operator_eq_bits xor_bit is_BoolVector_xor)
  show "none N (operator_xor N a a)"
    using a by (simp add: none_bits xor_bit)
qed

theorem bitwise_operators_commute_and_associate_witness:
  "is_BoolVector 10 \<lparr>data = [0x0F, 0xFD]\<rparr> \<and> is_BoolVector 10 \<lparr>data = [0x33, 0x02]\<rparr> \<and>
   is_BoolVector 10 \<lparr>data = [0x55, 0x07]\<rparr> \<and>
   operator_and 10 \<lparr>data = [0x0F, 0xFD]\<rparr> \<lparr>data = [0x33, 0x02]\<rparr> = \<lparr>data = [0x03, 0x00]\<rparr> \<and>
   operator_eq 10 (operator_and 10 \<lparr>data = [0x0F, 0xFD]\<rparr> \<lparr>data = [0x33, 0x02]\<rparr>)
                  (operator_and 10 \<lparr>data = [0x33, 0x02]\<rparr> \<lparr>data = [0x0F, 0xFD]\<rparr>) \<and>
   operator_eq 10
     (operator_xor 10 (operator_xor 10 \<lparr>data = [0x0F, 0xFD]\<rparr> \<lparr>data = [0x33, 0x02]\<rparr>)
        \<lparr>data = [0x55, 0x07]\<rparr>)
     (operator_xor 10 \<lparr>data = [0x0F, 0xFD]\<rparr>
        (operator_xor 10 \<lparr>data = [0x33, 0x02]\<rparr> \<lparr>data = [0x55, 0x07]\<rparr>)) \<and>
   none 10 (operator_xor 10 \<lparr>data = [0x0F, 0xFD]\<rparr> \<lparr>data = [0x0F, 0xFD]\<rparr>)"
proof -
  have a: "is_BoolVector 10 \<lparr>data = [0x0F, 0xFD]\<rparr>"
   and b: "is_BoolVector 10 \<lparr>data = [0x33, 0x02]\<rparr>"
   and c: "is_BoolVector 10 \<lparr>data = [0x55, 0x07]\<rparr>"
    by (simp_all add: is_BoolVector_def DataSize_def)
  have e: "operator_and 10 \<lparr>data = [0x0F, 0xFD]\<rparr> \<lparr>data = [0x33, 0x02]\<rparr> = \<lparr>data = [0x03, 0x00]\<rparr>"
    by (simp add: operator_and_def operator_and_assign_def DataSize_def upt_rec)
  from bitwise_operators_commute_and_associate [OF a b c] a b c e show ?thesis by blast
qed

lemma BoolVector_repeat_nth:
  "k < DataSize N \<Longrightarrow> data (BoolVector_repeat N x) ! k = x"
  by (simp add: BoolVector_repeat_def)

lemma is_BoolVector_repeat: "N \<noteq> 0 \<Longrightarrow> is_BoolVector N (BoolVector_repeat N x)"
  by (simp add: is_BoolVector_def BoolVector_repeat_def)

lemma bit_fill_segment:
  "j < 8 \<Longrightarrow> bit (if b then FullSegmentMask else (0 :: UnsignedByte)) j \<longleftrightarrow> b"
proof (cases b)
  case True
  assume "j < 8"
  moreover have "\<forall>j<8. bit (0xFF :: UnsignedByte) j" by (rule byte_full_iff [THEN iffD1]) (rule refl)
  ultimately show ?thesis using True by (simp add: FullSegmentMask_def)
next
  case False
  then show ?thesis by simp
qed

text \<open>
  C9. For every bit count \<open>N \<noteq> 1\<close> and both boolean values \<open>b\<close>, the fill constructor
  \<^verbatim>\<open>BoolVector(b)\<close> gives a vector whose every bit \<open>i < N\<close> equals \<open>b\<close>:
  \<^verbatim>\<open>BoolVector(true).all()\<close> and \<^verbatim>\<open>BoolVector(false).none()\<close> are true.
\<close>

theorem BoolVector_fill_every_bit:
  assumes "N \<noteq> 0" and "N \<noteq> 1"
  shows "(\<exists>v. BoolVector_fill N b = Some v \<and> is_BoolVector N v \<and> (\<forall>i<N. get v i = Some b)) \<and>
         (\<exists>t. BoolVector_fill N True = Some t \<and> all N t) \<and>
         (\<exists>f. BoolVector_fill N False = Some f \<and> none N f)"
proof (intro conjI)
  have bits: "bit (data (BoolVector_repeat N (if x then FullSegmentMask else 0)) ! (i div 8)) (i mod 8) = x"
    if "i < N" for i x
    using that by (simp only: BoolVector_repeat_nth index_in_DataSize bit_fill_segment mod8_less [simplified])
  let ?v = "BoolVector_repeat N (if b then FullSegmentMask else 0)"
  have f: "BoolVector_fill N b = Some ?v"
    using assms by (simp add: BoolVector_fill_def)
  have v: "is_BoolVector N ?v"
    using assms(1) by (rule is_BoolVector_repeat)
  have "\<forall>i<N. get ?v i = Some b"
  proof (intro allI impI)
    fix i assume i: "i < N"
    from get_valid [OF v i] bits [OF i, of b] show "get ?v i = Some b" by (simp only:)
  qed
  with f v show "\<exists>v. BoolVector_fill N b = Some v \<and> is_BoolVector N v \<and> (\<forall>i<N. get v i = Some b)"
    by blast
  show "\<exists>t. BoolVector_fill N True = Some t \<and> all N t"
    using assms bits [where x = True] by (simp add: BoolVector_fill_def all_bits)
  show "\<exists>f. BoolVector_fill N False = Some f \<and> none N f"
    using assms bits [where x = False] by (simp add: BoolVector_fill_def none_bits)
qed

theorem BoolVector_fill_every_bit_witness:
  "(19::nat) \<noteq> 0 \<and> (19::nat) \<noteq> 1 \<and>
   BoolVector_fill 19 True = Some \<lparr>data = [0xFF, 0xFF, 0xFF]\<rparr> \<and>
   BoolVector_fill 19 False = Some \<lparr>data = [0, 0, 0]\<rparr> \<and>
   all 19 \<lparr>data = [0xFF, 0xFF, 0xFF]\<rparr> \<and> none 19 \<lparr>data = [0, 0, 0]\<rparr> \<and>
   get \<lparr>data = [0xFF, 0xFF, 0xFF]\<rparr> 18 = Some True \<and> get \<lparr>data = [0, 0, 0]\<rparr> 18 = Some False"
proof -
  have n: "(19::nat) \<noteq> 0" "(19::nat) \<noteq> 1" by simp_all
  have t: "BoolVector_fill 19 True = Some \<lparr>data = [0xFF, 0xFF, 0xFF]\<rparr>"
   and f: "BoolVector_fill 19 False = Some \<lparr>data = [0, 0, 0]\<rparr>"
    by (simp_all add: BoolVector_fill_def BoolVector_repeat_def DataSize_def FullSegmentMask_def upt_rec)
  from BoolVector_fill_every_bit [OF n, of True] t
  have "all 19 \<lparr>data = [0xFF, 0xFF, 0xFF]\<rparr>" "\<forall>i<19. get \<lparr>data = [0xFF, 0xFF, 0xFF]\<rparr> i = Some True"
    by simp_all
  moreover from BoolVector_fill_every_bit [OF n, of False] f
  have "none 19 \<lparr>data = [0, 0, 0]\<rparr>" "\<forall>i<19. get \<lparr>data = [0, 0, 0]\<rparr> i = Some False"
    by simp_all
  ultimately show ?thesis using n t f by simp
qed

text \<open>
  What \<^verbatim>\<open>set\<close> does: \<^verbatim>\<open>|=\<close> with the shifted value can only add a bit.
\<close>

lemma set_BoolVector_False: "i div 8 < length (data v) \<Longrightarrow> set_BoolVector v i False = Some v"
  by (simp add: set_BoolVector_def)

lemma set_BoolVector_True_bits:
  assumes v: "is_BoolVector N v" and i: "i < N"
  shows "\<exists>v'. set_BoolVector v i True = Some v' \<and> is_BoolVector N v' \<and> get v' i = Some True \<and>
           (\<forall>j<N. j \<noteq> i \<longrightarrow> get v' j = get v j)"
proof -
  let ?d = "(data v)[i div 8 := data v ! (i div 8) OR push_bit (i mod 8) 1]"
  let ?v' = "v\<lparr>data := ?d\<rparr>"
  have len: "i div 8 < length (data v)"
    using v i by (simp add: is_BoolVector_def index_in_DataSize)
  have s: "set_BoolVector v i True = Some ?v'"
    using len by (simp add: set_BoolVector_def)
  have v': "is_BoolVector N ?v'"
    using v by (simp add: is_BoolVector_def)
  have gi: "get ?v' i = Some True"
    using len by (simp add: get_bit bit_or_iff bit_exp_iff)
  have gj: "get ?v' j = get v j" if j: "j < N" and ne: "j \<noteq> i" for j
  proof (cases "j div 8 = i div 8")
    case True
    have "j mod 8 \<noteq> i mod 8"
    proof
      assume "j mod 8 = i mod 8"
      with True have "8 * (j div 8) + j mod 8 = 8 * (i div 8) + i mod 8" by simp
      then have "j = i" by (simp only: mult_div_mod_eq)
      with ne show False by simp
    qed
    with True len show ?thesis
      by (simp add: get_bit bit_or_iff bit_exp_iff)
  next
    case False
    have "j div 8 < length (data v)"
      using v j by (simp add: is_BoolVector_def index_in_DataSize)
    with False show ?thesis by (simp add: get_bit)
  qed
  from s v' gi gj show ?thesis by blast
qed

text \<open>
  C1. For every bit count \<open>N\<close>, every index \<open>i < N\<close> and every vector \<open>v\<close>: after
  \<^verbatim>\<open>v.set(i, true)\<close>, \<^verbatim>\<open>v[i]\<close> is true; after \<^verbatim>\<open>v.set(i, false)\<close>, \<^verbatim>\<open>v[i]\<close> is false; the
  other bits are unchanged. The source does not clear: on the vector of size 8 with segment
  \<open>0xFF\<close>, \<^verbatim>\<open>set(0, false)\<close> returns the vector as it was, with bit 0 still set.
\<close>

theorem set_false_does_not_clear:
  "is_BoolVector 8 \<lparr>data = [0xFF]\<rparr> \<and>
   get \<lparr>data = [0xFF]\<rparr> 0 = Some True \<and>
   set_BoolVector \<lparr>data = [0xFF]\<rparr> 0 False = Some \<lparr>data = [0xFF]\<rparr> \<and>
   (\<exists>v'. set_BoolVector \<lparr>data = [0xFF]\<rparr> 0 False = Some v' \<and> get v' 0 = Some True)"
  by (simp add: is_BoolVector_def DataSize_def set_BoolVector_def get_def)

section \<open>The integer logarithm\<close>

lemma Math_log_less: "number < base \<Longrightarrow> Math_log base number = 0"
  by simp

lemma Math_log_step:
  "2 \<le> base \<Longrightarrow> base \<le> number \<Longrightarrow> Math_log base number = Suc (Math_log base (number div base))"
proof -
  assume b: "2 \<le> base" and n: "base \<le> number"
  from b n have "0 < number div base" by (simp add: div_greater_zero_iff)
  with b show ?thesis by (subst Math_log.simps) simp
qed

declare Math_log.simps [simp del]

text \<open>The model is the floor of the logarithm: \<open>base ^ k \<le> number < base ^ (k + 1)\<close>.\<close>

lemma Math_log_eqI:
  "2 \<le> base \<Longrightarrow> base ^ k \<le> number \<Longrightarrow> number < base ^ Suc k \<Longrightarrow> Math_log base number = k"
proof (induction k arbitrary: number)
  case 0
  then show ?case by (simp add: Math_log_less)
next
  case (Suc k)
  from Suc.prems have pos: "0 < base" by simp
  have "base ^ 1 \<le> base ^ Suc k" using Suc.prems(1) by (intro power_increasing) simp_all
  also note Suc.prems(2)
  finally have ge: "base \<le> number" by simp
  from Suc.prems have "base ^ k * base \<le> number" by (simp add: mult.commute)
  then have lo: "base ^ k \<le> number div base" using pos by (simp add: less_eq_div_iff_mult_less_eq)
  from Suc.prems have "number < base ^ Suc k * base" by (simp add: mult.commute)
  then have hi: "number div base < base ^ Suc k" using pos by (simp add: div_less_iff_less_mult)
  from Suc.IH [OF Suc.prems(1) lo hi] Math_log_step [OF Suc.prems(1) ge] show ?case by simp
qed

lemma Math_log_floor:
  "2 \<le> base \<Longrightarrow> 0 < number \<Longrightarrow>
   base ^ Math_log base number \<le> number \<and> number < base ^ Suc (Math_log base number)"
proof (induction base number rule: Math_log.induct)
  case (1 base number)
  show ?case
  proof (cases "number < base")
    case True
    with "1.prems" show ?thesis by (simp add: Math_log_less)
  next
    case False
    then have ge: "base \<le> number" by simp
    from "1.prems" have pos: "0 < base" by simp
    from "1.prems" ge have q: "0 < number div base" by (simp add: div_greater_zero_iff)
    with "1.prems" have c: "\<not> (base < 2 \<or> number div base = 0)" by simp
    from "1.IH" [OF c "1.prems"(1) q]
    have lo: "base ^ Math_log base (number div base) \<le> number div base"
     and hi: "number div base < base ^ Suc (Math_log base (number div base))" by simp_all
    from lo pos have "base ^ Math_log base (number div base) * base \<le> number"
      by (simp add: less_eq_div_iff_mult_less_eq)
    moreover from hi pos have "number < base ^ Suc (Math_log base (number div base)) * base"
      by (simp add: div_less_iff_less_mult)
    ultimately show ?thesis
      using Math_log_step [OF "1.prems"(1) ge] by (simp add: mult.commute)
  qed
qed

lemma Math_log_256_cases:
  "number < 256 \<Longrightarrow> Math_log 256 number = 0"
  "256 \<le> number \<Longrightarrow> number < 65536 \<Longrightarrow> Math_log 256 number = 1"
  "65536 \<le> number \<Longrightarrow> number < 16777216 \<Longrightarrow> Math_log 256 number = 2"
  "16777216 \<le> number \<Longrightarrow> number < 4294967296 \<Longrightarrow> Math_log 256 number = 3"
  using Math_log_less [of number 256] Math_log_eqI [of 256 1 number]
    Math_log_eqI [of 256 2 number] Math_log_eqI [of 256 3 number]
  by simp_all

lemma Math_log_256_bound: "number < 256 ^ Suc (Math_log 256 number)"
proof (cases "number = 0")
  case True
  then show ?thesis by simp
next
  case False
  then show ?thesis using Math_log_floor [of 256 number] by simp
qed

lemma Math_log_256_word: "Math_log 256 (unat w) \<le> 3" for w :: "32 word"
proof -
  let ?m = "unat w"
  have top: "?m < 4294967296" using unsigned_less [of w] by simp
  consider "?m < 256" | "256 \<le> ?m" "?m < 65536" | "65536 \<le> ?m" "?m < 16777216" | "16777216 \<le> ?m"
    by (cases "?m < 256"; cases "?m < 65536"; cases "?m < 16777216") simp_all
  then show ?thesis using top by cases (simp_all add: Math_log_256_cases)
qed

section \<open>The greatest element\<close>

lemma max_element_loop:
  "1 \<le> n \<Longrightarrow> n \<le> length xs \<Longrightarrow>
   fold (\<lambda>i largest. if xs ! largest < xs ! i then i else largest) [1..<n] 0 < n \<and>
   (\<forall>k<n. xs ! k \<le> xs ! fold (\<lambda>i largest. if xs ! largest < xs ! i then i else largest) [1..<n] 0)"
  for xs :: "32 word list"
proof (induction n)
  case 0
  then show ?case by simp
next
  case (Suc n)
  show ?case
  proof (cases "n = 0")
    case True
    then show ?thesis by simp
  next
    case False
    then have n: "1 \<le> n" by simp
    from Suc.prems have "n \<le> length xs" by simp
    from Suc.IH [OF n this] n show ?thesis
      by (auto simp: less_Suc_eq not_less intro: order_trans less_imp_le)
  qed
qed

lemma max_element_greatest:
  assumes "xs \<noteq> []"
  shows "max_element xs < length xs \<and> xs ! max_element xs = Max (set xs)"
proof -
  from assms have n: "1 \<le> length xs" by (cases xs) simp_all
  from max_element_loop [OF n order_refl] assms
  have lt: "max_element xs < length xs" and ge: "\<forall>k<length xs. xs ! k \<le> xs ! max_element xs"
    by (simp_all add: max_element_def)
  have "Max (set xs) = xs ! max_element xs"
  proof (rule Max_eqI)
    show "finite (set xs)" by simp
    show "xs ! max_element xs \<in> set xs" using lt by simp
    fix y assume "y \<in> set xs"
    then obtain k where "k < length xs" "y = xs ! k" by (auto simp: in_set_conv_nth)
    with ge show "y \<le> xs ! max_element xs" by simp
  qed
  with lt show ?thesis by simp
qed

lemma deref_max_element:
  "xs \<noteq> [] \<Longrightarrow> deref stale xs (max_element xs) = Max (set xs)"
  using max_element_greatest [of xs] by (simp add: deref_def)


section \<open>The compressed buffer\<close>

lemma length_bytes_of: "length (bytes_of bo T x) = sizeof T"
  by (cases bo) (simp_all add: bytes_of_def)

lemma length_concat_chunks:
  assumes "\<And>x. length (enc x) = s"
  shows "length (concat (map enc xs)) = length xs * s"
  by (induction xs) (simp_all add: assms)

lemma compress_loop:
  fixes enc :: "32 word \<Rightarrow> 8 word list"
  assumes len: "\<And>x. length (enc x) = s"
  shows "k \<le> length indices \<Longrightarrow>
    fold (\<lambda>i buffer. memcpy buffer (i * s) (enc (indices ! i))) [0..<k] buffer0 =
      concat (map enc (take k indices)) @ drop (k * s) buffer0"
proof (induction k)
  case 0
  then show ?case by simp
next
  case (Suc k)
  let ?done = "concat (map enc (take k indices))"
  from Suc.prems have k: "k < length indices" by simp
  have l: "length ?done = k * s"
    using k by (simp add: length_concat_chunks [where enc = enc and s = s, OF len])
  from Suc.IH k
  have "fold (\<lambda>i buffer. memcpy buffer (i * s) (enc (indices ! i))) [0..<Suc k] buffer0 =
        memcpy (?done @ drop (k * s) buffer0) (k * s) (enc (indices ! k))"
    by simp
  also have "\<dots> = ?done @ enc (indices ! k) @ drop (k * s + s) buffer0"
    by (simp add: memcpy_def l len add.commute)
  also have "\<dots> = concat (map enc (take (Suc k) indices)) @ drop (Suc k * s) buffer0"
    using k by (simp add: take_Suc_conv_app_nth add.commute)
  finally show ?case .
qed


lemma compress_buffer:
  "compress bo T indices =
     (length indices, T, concat (map (\<lambda>x. bytes_of bo T (static_cast T x)) indices))"
  using compress_loop [where enc = "\<lambda>x. bytes_of bo T (static_cast T x)" and s = "sizeof T"
      and k = "length indices" and indices = indices
      and ?buffer0.0 = "replicate (length indices * sizeof T) 0", OF length_bytes_of order_refl]
  by (simp add: compress_def)

lemma chunk_of_concat:
  assumes len: "\<And>x. length (enc x) = s"
  shows "i < length xs \<Longrightarrow> take s (drop (i * s) (concat (map enc xs))) = enc (xs ! i)"
proof (induction xs arbitrary: i)
  case Nil
  then show ?case by simp
next
  case (Cons x xs)
  show ?case
  proof (cases i)
    case 0
    then show ?thesis by (simp add: len)
  next
    case (Suc j)
    with Cons.prems have "j < length xs" by simp
    from Cons.IH [OF this] Suc show ?thesis by (simp add: len)
  qed
qed

section \<open>Reading an element back\<close>

lemma byte_step:
  "ucast (ucast w :: 8 word) OR push_bit 8 (take_bit m (drop_bit 8 w)) = take_bit (8 + m) (w :: 32 word)"
  by (rule bit_word_eqI) (auto simp: bit_simps)

lemma low_first_value:
  "foldr (\<lambda>b acc. ucast b OR push_bit 8 acc)
     (map (\<lambda>k. ucast (drop_bit (8 * k) v) :: 8 word) [a..<a + s]) (0 :: 32 word) =
   take_bit (8 * s) (drop_bit (8 * a) v)"
proof (induction s arbitrary: a)
  case 0
  then show ?case by simp
next
  case (Suc s)
  have "[a..<a + Suc s] = a # [Suc a..<Suc a + s]" by (simp add: upt_rec)
  with Suc.IH [of "Suc a"] show ?case
    by (simp add: byte_step [of "drop_bit (8 * a) v" "8 * s", symmetric] drop_bit_drop_bit add.commute)
qed

lemma decode_bytes_of:
  "foldr (\<lambda>b acc. ucast b OR push_bit 8 acc)
     (case bo of LittleEndian \<Rightarrow> bytes_of bo T x | BigEndian \<Rightarrow> rev (bytes_of bo T x)) (0 :: 32 word) =
   take_bit (8 * sizeof T) x"
  using low_first_value [of x 0 "sizeof T"]
  by (cases bo) (simp_all add: bytes_of_def)

lemma take_bit_fits: "unat x < 2 ^ n \<Longrightarrow> take_bit n x = x" for x :: "32 word"
  by (simp add: word_unat_eq_iff unsigned_take_bit_eq take_bit_nat_eq_self)

lemma take_bit_static_cast: "take_bit (8 * sizeof T) (static_cast T x) = static_cast T x"
  by (simp add: static_cast_def)

lemma decode_index_compress:
  assumes "i < length indices"
  shows "decode_index bo T (snd (snd (compress bo T indices))) i = static_cast T (indices ! i)"
proof -
  have "take (sizeof T) (drop (i * sizeof T)
          (concat (map (\<lambda>x. bytes_of bo T (static_cast T x)) indices))) =
        bytes_of bo T (static_cast T (indices ! i))"
    using assms by (rule chunk_of_concat [where enc = "\<lambda>x. bytes_of bo T (static_cast T x)", OF length_bytes_of])
  then show ?thesis
    using decode_bytes_of [of bo T "static_cast T (indices ! i)"]
    by (simp add: decode_index_def compress_buffer Let_def take_bit_static_cast)
qed

lemma length_compress:
  "length (snd (snd (compress bo T indices))) = length indices * sizeof T"
  by (simp add: compress_buffer length_concat_chunks [where s = "sizeof T"] length_bytes_of)

section \<open>Claims about compressIndices\<close>

lemma compressIndices_select:
  assumes ne: "indices \<noteq> []"
  shows "unat (Max (set indices)) < 256 \<Longrightarrow>
           compressIndices bo stale indices = Inr (compress bo UnsignedByte indices)"
    and "256 \<le> unat (Max (set indices)) \<Longrightarrow> unat (Max (set indices)) < 65536 \<Longrightarrow>
           compressIndices bo stale indices = Inr (compress bo UnsignedShort indices)"
    and "65536 \<le> unat (Max (set indices)) \<Longrightarrow>
           compressIndices bo stale indices = Inr (compress bo UnsignedInt indices)"
proof -
  let ?m = "unat (Max (set indices))"
  have c: "compressIndices bo stale indices =
     (let k = Math_log 256 ?m
      in if k = 0 then Inr (compress bo UnsignedByte indices)
         else if k = 1 then Inr (compress bo UnsignedShort indices)
         else if k = 2 \<or> k = 3 then Inr (compress bo UnsignedInt indices)
         else Inl (NoTypeAbleToIndex ?m))"
    by (simp add: compressIndices_def deref_max_element [OF ne] Let_def)
  show "compressIndices bo stale indices = Inr (compress bo UnsignedByte indices)" if "?m < 256"
    using that by (simp add: c Math_log_256_cases(1))
  show "compressIndices bo stale indices = Inr (compress bo UnsignedShort indices)"
    if "256 \<le> ?m" "?m < 65536"
    using that by (simp add: c Math_log_256_cases(2))
  show "compressIndices bo stale indices = Inr (compress bo UnsignedInt indices)" if l: "65536 \<le> ?m"
  proof (cases "?m < 16777216")
    case True
    with l show ?thesis by (simp add: c Math_log_256_cases(3))
  next
    case False
    have "?m < 2 ^ LENGTH(32)" by (rule unsigned_less)
    with False show ?thesis by (simp add: c Math_log_256_cases(4))
  qed
qed

lemma unat_le_Max: "x \<in> set indices \<Longrightarrow> unat x \<le> unat (Max (set indices))"
  for x :: "32 word"
  by (simp add: word_le_nat_alt [symmetric])

text \<open>
  C2. For every non-empty sequence of 32-bit indices with maximum \<open>m\<close>, \<^verbatim>\<open>compressIndices\<close>
  selects the element width 1 when \<open>m \<le> 255\<close> (the integer log base 256 of \<open>m\<close> is 0), 2 when
  \<open>256 \<le> m \<le> 65535\<close> (the log is 1) and 4 when \<open>m \<ge> 65536\<close> (the log is 2 or 3); the input
  \<open>[5]\<close> gives width 1 and the buffer \<open>{5}\<close>, \<open>[300]\<close> width 2 and \<open>[70000]\<close> width 4.
\<close>

theorem compressIndices_width:
  assumes "indices \<noteq> []"
  shows "(\<exists>count T buffer. compressIndices bo stale indices = Inr (count, T, buffer) \<and>
           (unat (Max (set indices)) \<le> 255 \<longrightarrow>
              Math_log 256 (unat (Max (set indices))) = 0 \<and> sizeof T = 1) \<and>
           (256 \<le> unat (Max (set indices)) \<and> unat (Max (set indices)) \<le> 65535 \<longrightarrow>
              Math_log 256 (unat (Max (set indices))) = 1 \<and> sizeof T = 2) \<and>
           (65536 \<le> unat (Max (set indices)) \<longrightarrow>
              (Math_log 256 (unat (Max (set indices))) = 2 \<or>
               Math_log 256 (unat (Max (set indices))) = 3) \<and> sizeof T = 4)) \<and>
         compressIndices bo stale [5] = Inr (1, UnsignedByte, [5]) \<and>
         (\<exists>buffer. compressIndices bo stale [300] = Inr (1, UnsignedShort, buffer)) \<and>
         sizeof UnsignedShort = 2 \<and>
         (\<exists>buffer. compressIndices bo stale [70000] = Inr (1, UnsignedInt, buffer)) \<and>
         sizeof UnsignedInt = 4"
proof (intro conjI)
  let ?m = "unat (Max (set indices))"
  have top: "?m < 4294967296" using unsigned_less [of "Max (set indices)"] by simp
  consider "?m < 256" | "256 \<le> ?m" "?m < 65536" | "65536 \<le> ?m" "?m < 16777216" | "16777216 \<le> ?m"
    by (cases "?m < 256"; cases "?m < 65536"; cases "?m < 16777216") simp_all
  then show "\<exists>count T buffer. compressIndices bo stale indices = Inr (count, T, buffer) \<and>
           (?m \<le> 255 \<longrightarrow> Math_log 256 ?m = 0 \<and> sizeof T = 1) \<and>
           (256 \<le> ?m \<and> ?m \<le> 65535 \<longrightarrow> Math_log 256 ?m = 1 \<and> sizeof T = 2) \<and>
           (65536 \<le> ?m \<longrightarrow> (Math_log 256 ?m = 2 \<or> Math_log 256 ?m = 3) \<and> sizeof T = 4)"
  proof cases
    case 1
    with compressIndices_select(1) [OF assms, where bo = bo and stale = stale] show ?thesis
      by (simp add: compress_buffer Math_log_256_cases(1) sizeof_def)
  next
    case 2
    with compressIndices_select(2) [OF assms, where bo = bo and stale = stale] show ?thesis
      by (simp add: compress_buffer Math_log_256_cases(2) sizeof_def)
  next
    case 3
    with compressIndices_select(3) [OF assms, where bo = bo and stale = stale] show ?thesis
      by (simp add: compress_buffer Math_log_256_cases(3) sizeof_def)
  next
    case 4
    with top compressIndices_select(3) [OF assms, where bo = bo and stale = stale] show ?thesis
      by (simp add: compress_buffer Math_log_256_cases(4) sizeof_def)
  qed
  show "compressIndices bo stale [5] = Inr (1, UnsignedByte, [5])"
    using compressIndices_select(1) [where indices = "[5]" and bo = bo and stale = stale]
    by (cases bo) (simp_all add: compress_buffer bytes_of_def static_cast_def sizeof_def)
  show "\<exists>buffer. compressIndices bo stale [300] = Inr (1, UnsignedShort, buffer)"
    using compressIndices_select(2) [where indices = "[300]" and bo = bo and stale = stale] by (simp add: compress_buffer)
  show "\<exists>buffer. compressIndices bo stale [70000] = Inr (1, UnsignedInt, buffer)"
    using compressIndices_select(3) [where indices = "[70000]" and bo = bo and stale = stale] by (simp add: compress_buffer)
qed (simp_all add: sizeof_def)

theorem compressIndices_width_witness:
  "[300, 7 :: 32 word] \<noteq> [] \<and>
   compressIndices LittleEndian 0 [300, 7] = Inr (2, UnsignedShort, [44, 1, 7, 0]) \<and>
   unat (Max (set [300, 7 :: 32 word])) = 300 \<and>
   Math_log 256 (unat (Max (set [300, 7 :: 32 word]))) = 1 \<and>
   sizeof UnsignedShort = 2"
proof -
  have ne: "[300, 7 :: 32 word] \<noteq> []" by simp
  have m: "unat (Max (set [300, 7 :: 32 word])) = 300" by simp
  have e: "compressIndices LittleEndian 0 [300, 7] = Inr (2, UnsignedShort, [44, 1, 7, 0])"
    by (simp add: compressIndices_def deref_def max_element_def Math_log.simps compress_def
        static_cast_def sizeof_def bytes_of_def memcpy_def upt_rec)
  from compressIndices_width [OF ne, where bo = LittleEndian and stale = 0] m e
  have "Math_log 256 (unat (Max (set [300, 7 :: 32 word]))) = 1 \<and> sizeof UnsignedShort = 2"
    by simp
  with ne m e show ?thesis by simp
qed

lemma compress_round_trip:
  assumes fits: "\<forall>x \<in> set indices. unat x < 2 ^ (8 * sizeof T)"
  shows "\<exists>count buffer. compress bo T indices = (count, T, buffer) \<and> count = length indices \<and>
           length buffer = count * sizeof T \<and>
           (\<forall>i<count. static_cast T (indices ! i) = indices ! i \<and>
                       decode_index bo T buffer i = indices ! i)"
proof -
  obtain buffer where b: "compress bo T indices = (length indices, T, buffer)"
    by (simp add: compress_buffer)
  then have sb: "snd (snd (compress bo T indices)) = buffer" by simp
  have len: "length buffer = length indices * sizeof T"
    using length_compress [of bo T indices] by (simp only: sb)
  have el: "static_cast T (indices ! i) = indices ! i \<and> decode_index bo T buffer i = indices ! i"
    if i: "i < length indices" for i
  proof -
    from i have "indices ! i \<in> set indices" by simp
    with fits have "unat (indices ! i) < 2 ^ (8 * sizeof T)" by blast
    then have c: "static_cast T (indices ! i) = indices ! i"
      unfolding static_cast_def by (rule take_bit_fits)
    from decode_index_compress [OF i, of bo T] c show ?thesis by (simp only: sb simp_thms)
  qed
  from b len el show ?thesis by blast
qed

text \<open>
  C3. For every non-empty sequence of 32-bit indices, \<^verbatim>\<open>compressIndices\<close> gives a buffer of
  exactly \<open>count * elementWidth\<close> bytes whose \<open>i\<close>-th element, read at the reported width,
  is the \<open>i\<close>-th input value, in the original order; the narrowing cast changes no value.
\<close>

theorem compressIndices_round_trip:
  assumes "indices \<noteq> []"
  shows "\<exists>count T buffer. compressIndices bo stale indices = Inr (count, T, buffer) \<and>
           count = length indices \<and> length buffer = count * sizeof T \<and>
           (\<forall>i<count. static_cast T (indices ! i) = indices ! i \<and>
                       decode_index bo T buffer i = indices ! i)"
proof -
  let ?m = "unat (Max (set indices))"
  have le: "\<forall>x \<in> set indices. unat x \<le> ?m" by (simp add: unat_le_Max)
  consider "?m < 256" | "256 \<le> ?m" "?m < 65536" | "65536 \<le> ?m"
    by (cases "?m < 256"; cases "?m < 65536") simp_all
  then show ?thesis
  proof cases
    case 1
    have "\<forall>x \<in> set indices. unat x < 2 ^ (8 * sizeof UnsignedByte)"
    proof
      fix x assume "x \<in> set indices"
      with le have "unat x \<le> ?m" by blast
      with 1 show "unat x < 2 ^ (8 * sizeof UnsignedByte)" by (simp add: sizeof_def)
    qed
    from compress_round_trip [OF this, of bo] compressIndices_select(1) [OF assms 1, where bo = bo and stale = stale]
    show ?thesis by (simp only:) blast
  next
    case 2
    have "\<forall>x \<in> set indices. unat x < 2 ^ (8 * sizeof UnsignedShort)"
    proof
      fix x assume "x \<in> set indices"
      with le have "unat x \<le> ?m" by blast
      with 2 show "unat x < 2 ^ (8 * sizeof UnsignedShort)" by (simp add: sizeof_def)
    qed
    from compress_round_trip [OF this, of bo] compressIndices_select(2) [OF assms 2, where bo = bo and stale = stale]
    show ?thesis by (simp only:) blast
  next
    case 3
    have "\<forall>x \<in> set indices. unat x < 2 ^ (8 * sizeof UnsignedInt)"
    proof
      fix x :: "32 word"
      have "unat x < 2 ^ LENGTH(32)" by (rule unsigned_less)
      then show "unat x < 2 ^ (8 * sizeof UnsignedInt)" by (simp add: sizeof_def)
    qed
    from compress_round_trip [OF this, of bo] compressIndices_select(3) [OF assms 3, where bo = bo and stale = stale]
    show ?thesis by (simp only:) blast
  qed
qed

theorem compressIndices_round_trip_witness:
  "[3, 515, 2 :: 32 word] \<noteq> [] \<and>
   compressIndices BigEndian 0 [3, 515, 2] = Inr (3, UnsignedShort, [0, 3, 2, 3, 0, 2]) \<and>
   length [0, 3, 2, 3, 0, 2 :: 8 word] = 3 * sizeof UnsignedShort \<and>
   decode_index BigEndian UnsignedShort [0, 3, 2, 3, 0, 2] 0 = 3 \<and>
   decode_index BigEndian UnsignedShort [0, 3, 2, 3, 0, 2] 1 = 515 \<and>
   decode_index BigEndian UnsignedShort [0, 3, 2, 3, 0, 2] 2 = 2"
proof -
  have ne: "[3, 515, 2 :: 32 word] \<noteq> []" by simp
  have e: "compressIndices BigEndian 0 [3, 515, 2] = Inr (3, UnsignedShort, [0, 3, 2, 3, 0, 2])"
    by (simp add: compressIndices_def deref_def max_element_def Math_log.simps compress_def
        static_cast_def sizeof_def bytes_of_def memcpy_def upt_rec)
  from compressIndices_round_trip [OF ne, where bo = BigEndian and stale = 0] e
  have l: "length [0, 3, 2, 3, 0, 2 :: 8 word] = 3 * sizeof UnsignedShort"
   and d: "\<forall>i<3. decode_index BigEndian UnsignedShort [0, 3, 2, 3, 0, 2] i = [3, 515, 2] ! i"
    by simp_all
  from d have "decode_index BigEndian UnsignedShort [0, 3, 2, 3, 0, 2] 0 = 3"
    "decode_index BigEndian UnsignedShort [0, 3, 2, 3, 0, 2] 1 = 515"
    "decode_index BigEndian UnsignedShort [0, 3, 2, 3, 0, 2] 2 = 2"
    by (simp_all del: One_nat_def)
  with ne e l show ?thesis by blast
qed



text \<open>
  C10. For every non-empty sequence of 32-bit indices the branch
  \<open>no type able to index\<close> of \<^verbatim>\<open>compressIndices\<close> is not taken: the integer log base 256
  of a value below \<open>2^32\<close> is at most 3, so one of the three widths is chosen and the
  function returns a result.
\<close>

theorem compressIndices_always_returns:
  assumes "indices \<noteq> []"
  shows "Math_log 256 (unat (Max (set indices))) \<le> 3 \<and>
         (\<exists>r. compressIndices bo stale indices = Inr r) \<and>
         (\<nexists>size. compressIndices bo stale indices = Inl (NoTypeAbleToIndex size))"
proof -
  let ?m = "unat (Max (set indices))"
  consider "?m < 256" | "256 \<le> ?m" "?m < 65536" | "65536 \<le> ?m"
    by (cases "?m < 256"; cases "?m < 65536") simp_all
  then have "\<exists>r. compressIndices bo stale indices = Inr r"
    using compressIndices_select [OF assms, where bo = bo and stale = stale] by cases (simp_all add: compress_buffer)
  then show ?thesis using Math_log_256_word [of "Max (set indices)"] by auto
qed

theorem compressIndices_always_returns_witness:
  "[4294967295 :: 32 word] \<noteq> [] \<and>
   Math_log 256 (unat (Max (set [4294967295 :: 32 word]))) \<le> 3 \<and>
   compressIndices LittleEndian 0 [4294967295] = Inr (1, UnsignedInt, [255, 255, 255, 255])"
proof -
  have ne: "[4294967295 :: 32 word] \<noteq> []" by simp
  have e: "compressIndices LittleEndian 0 [4294967295] = Inr (1, UnsignedInt, [255, 255, 255, 255])"
    by (simp add: compressIndices_def deref_def max_element_def Math_log.simps compress_def
        static_cast_def sizeof_def bytes_of_def memcpy_def upt_rec)
  from compressIndices_always_returns [OF ne, where bo = LittleEndian and stale = 0] ne e show ?thesis by blast
qed

end
